theory Spec2Isabelle
  imports Complex_Main "HOL-Library.AList" "HOL-Library.Sublist" "HOL-Library.Word"
begin

section \<open>Characters and strings\<close>

text \<open>
  The program works on Python \<open>str\<close> values, sequences of Unicode code points. What
  Python's Unicode database says about a character is not part of the program, so the
  tokenizer takes it as a parameter, for any type \<open>'c\<close> of characters: \<open>u_lower\<close> is
  \<open>str.lower\<close> (a function of the whole string: in Unicode it can change the length of a
  string and depends on the context of a character), \<open>u_isspace\<close>, \<open>u_isalpha\<close> and
  \<open>u_isdigit\<close> are \<open>str.isspace\<close>, \<open>str.isalpha\<close> and \<open>str.isdigit\<close> on one character,
  and \<open>u_literal\<close> gives the \<open>str\<close> that an ASCII string literal of the source denotes.
\<close>

record 'c unicode =
  u_lower :: "'c list \<Rightarrow> 'c list"
  u_isspace :: "'c \<Rightarrow> bool"
  u_isalpha :: "'c \<Rightarrow> bool"
  u_isdigit :: "'c \<Rightarrow> bool"
  u_literal :: "string \<Rightarrow> 'c list"

text \<open>
  The code points below 256 (ASCII and the Latin-1 block) are the characters of
  \<open>string\<close>; \<open>of_char\<close> gives the code point. On them, \<open>isspace\<close>, \<open>isalpha\<close>, \<open>isdigit\<close>
  and \<open>str_lower\<close> below are Python's \<open>str.isspace\<close>, \<open>str.isalpha\<close>, \<open>str.isdigit\<close> and
  \<open>str.lower\<close>, and \<open>isupper\<close> is \<open>str.isupper\<close>; \<open>latin1\<close> collects them. The index is
  modelled for texts and file names of these characters.
\<close>

definition isspace :: "char \<Rightarrow> bool" where
  "isspace c =
     (let n = (of_char c :: nat)
      in (9 \<le> n \<and> n \<le> 13) \<or> (28 \<le> n \<and> n \<le> 32) \<or> n = 133 \<or> n = 160)"

definition isalpha :: "char \<Rightarrow> bool" where
  "isalpha c =
     (let n = (of_char c :: nat)
      in (65 \<le> n \<and> n \<le> 90) \<or> (97 \<le> n \<and> n \<le> 122) \<or> n = 170 \<or> n = 181 \<or> n = 186
         \<or> (192 \<le> n \<and> n \<le> 214) \<or> (216 \<le> n \<and> n \<le> 246) \<or> 248 \<le> n)"

definition isdigit :: "char \<Rightarrow> bool" where
  "isdigit c =
     (let n = (of_char c :: nat)
      in (48 \<le> n \<and> n \<le> 57) \<or> n = 178 \<or> n = 179 \<or> n = 185)"

text \<open>The upper-case letters below 256: the characters that \<open>str.lower\<close> changes.\<close>

definition isupper :: "char \<Rightarrow> bool" where
  "isupper c =
     (let n = (of_char c :: nat)
      in (65 \<le> n \<and> n \<le> 90) \<or> (192 \<le> n \<and> n \<le> 214) \<or> (216 \<le> n \<and> n \<le> 222))"

definition lower_char :: "char \<Rightarrow> char" where
  "lower_char c = (if isupper c then char_of (of_char c + (32 :: nat)) else c)"

definition str_lower :: "string \<Rightarrow> string" where
  "str_lower s = map lower_char s"

definition latin1 :: "char unicode" where
  "latin1 =
     \<lparr>u_lower = str_lower, u_isspace = isspace, u_isalpha = isalpha, u_isdigit = isdigit,
      u_literal = (\<lambda>s. s)\<rparr>"







text \<open>
  \<open>str.split()\<close> without a separator: the maximal runs of non-whitespace characters, in
  order. \<open>cur\<close> is the word being read.
\<close>

fun split_from :: "'c unicode \<Rightarrow> 'c list \<Rightarrow> 'c list \<Rightarrow> 'c list list" where
  "split_from U cur [] = (if cur = [] then [] else [cur])"
| "split_from U cur (c # cs) =
     (if u_isspace U c then (if cur = [] then split_from U [] cs else cur # split_from U [] cs)
      else split_from U (cur @ [c]) cs)"

definition str_split :: "'c unicode \<Rightarrow> 'c list \<Rightarrow> 'c list list" where
  "str_split U s = split_from U [] s"

section \<open>The tokenizer\<close>

text \<open>
  \<^verbatim>\<open>STOP_WORDS = set("""the of in and to a an was for on with is by as at from that
it were are has had also its this may be or""".split())\<close>
\<close>

definition STOP_WORDS_of :: "'c unicode \<Rightarrow> 'c list set" where
  "STOP_WORDS_of U =
     set (str_split U
            (u_literal U (''the of in and to a an was for on with is by as at from that''
                          @ [CHR 0x0A]
                          @ ''it were are has had also its this may be or'')))"

text \<open>
  \<^verbatim>\<open>def tokens(text):
    words = text.lower().split()
    for word in words:
        if any(c.isalpha() or c.isdigit() for c in word):
            if word not in STOP_WORDS:
                yield word\<close>
  The generator is modelled by the list of the words it yields, in order.
\<close>

definition tokens_of :: "'c unicode \<Rightarrow> 'c list \<Rightarrow> 'c list list" where
  "tokens_of U text =
     filter (\<lambda>word. list_ex (\<lambda>c. u_isalpha U c \<or> u_isdigit U c) word \<and> word \<notin> STOP_WORDS_of U)
       (str_split U (u_lower U text))"


definition tokens :: "string \<Rightarrow> string list" where
  "tokens text = tokens_of latin1 text"

section \<open>Python values used by the index\<close>

datatype error = ValueError | ZeroDivisionError | TypeError | AttributeError

text \<open>
  \<open>str.replace(old, new)\<close>: every occurrence of \<open>old\<close> is replaced, scanning from the
  left, and the scan goes on after the replaced occurrence. With an empty \<open>old\<close>, Python
  puts \<open>new\<close> before every character and at the end.
\<close>

fun str_replace :: "string \<Rightarrow> string \<Rightarrow> string \<Rightarrow> string" where
  "str_replace old new [] = (if old = [] then new else [])"
| "str_replace old new (c # cs) =
     (if old = [] then new @ c # str_replace old new cs
      else if prefix old (c # cs) then new @ str_replace old new (drop (length old - 1) cs)
      else c # str_replace old new cs)"

text \<open>
  A \<open>dict\<close> keeps its keys in insertion order: an association list with one entry per
  key. \<open>dict_get d k v\<close> is \<open>d.get(k, v)\<close>; \<open>dict_set d k v\<close> is \<open>d[k] = v\<close>, which keeps
  the place of a key that is present and puts a new key last. Reading \<open>d[k]\<close> from a
  \<open>defaultdict\<close> whose key is missing stores the default under \<open>k\<close> first, so
  \<open>d[k].append(x)\<close> and \<open>d[k] += x\<close> are a \<open>dict_get\<close> with the default followed by a
  \<open>dict_set\<close>.
\<close>

definition dict_get :: "('k \<times> 'v) list \<Rightarrow> 'k \<Rightarrow> 'v \<Rightarrow> 'v" where
  "dict_get d k v = (case map_of d k of None \<Rightarrow> v | Some u \<Rightarrow> u)"

definition dict_set :: "('k \<times> 'v) list \<Rightarrow> 'k \<Rightarrow> 'v \<Rightarrow> ('k \<times> 'v) list" where
  "dict_set d k v = AList.update k v d"

text \<open>The builtin \<open>max\<close> over a sequence of lengths: an empty sequence raises \<open>ValueError\<close>.\<close>

fun py_max :: "nat list \<Rightarrow> error + nat" where
  "py_max [] = Inl ValueError"
| "py_max (x # xs) = Inr (fold max xs x)"

section \<open>Documents, postings and the index\<close>

text \<open>
  \<^verbatim>\<open>class Document:
    def __init__(self, id, filename):
        self.id = id
        self.name = filename.replace(".txt", "")
        self.filename = filename
        self.max_tf = 0\<close>
\<close>

record document =
  doc_id :: nat
  name :: string
  filename :: string
  max_tf :: nat

definition Document :: "nat \<Rightarrow> string \<Rightarrow> document" where
  "Document i fname =
     \<lparr>doc_id = i, name = str_replace ''.txt'' '''' fname, filename = fname, max_tf = 0\<rparr>"

text \<open>
  \<^verbatim>\<open>Loc = collections.namedtuple("Loc", "document offsets")\<close>
  A \<open>Loc\<close> refers to the \<open>Document\<close> object it belongs to. The only assignment to a
  document after its construction is the one to \<open>max_tf\<close> in \<open>add_doc\<close>, made before any
  \<open>Loc\<close> of that document is stored in the index; the model therefore stores the document
  with that final value in the \<open>Loc\<close>. Two references to the same object are two equal
  records.
\<close>

datatype loc = Loc (document: document) (offsets: "nat list")

record index =
  documents :: "document list"
  terms :: "(string \<times> loc list) list"

text \<open>The two assignments that open \<open>Index.__init__\<close>.\<close>

definition new_index :: index where
  "new_index = \<lparr>documents = [], terms = []\<rparr>"

section \<open>Ingestion\<close>

text \<open>
  \<^verbatim>\<open>locs_in_file = collections.defaultdict(lambda: Loc(doc, []))
for i, word in enumerate(tokens(text)):
    locs_in_file[word].offsets.append(i)\<close>
  The dictionary is modelled by its offsets lists, keyed by word in first-seen order.
\<close>

definition locs_in_file :: "string list \<Rightarrow> (string \<times> nat list) list" where
  "locs_in_file ws =
     fold (\<lambda>(i, word) locs. dict_set locs word (dict_get locs word [] @ [i]))
       (enumerate 0 ws) []"

text \<open>
  \<^verbatim>\<open>def add_doc(self, filename, text):
    id = len(self.documents)
    doc = Document(id, filename)
    self.documents.append(doc)
    locs_in_file = ...
    doc.max_tf = max(len(loc.offsets) for loc in locs_in_file.values())
    for word, locs in locs_in_file.items():
        self.terms[word].append(locs)\<close>
  The result is the exception raised, if any, and the index as the call leaves it. The
  document is in \<open>self.documents\<close> before \<open>max\<close> is evaluated; the assignment to
  \<open>doc.max_tf\<close> changes that same object, at position \<open>id\<close> of the list.
\<close>

definition add_doc :: "index \<Rightarrow> string \<Rightarrow> string \<Rightarrow> error option \<times> index" where
  "add_doc self fname text =
     (let i = length (documents self);
          doc = Document i fname;
          self1 = self\<lparr>documents := documents self @ [doc]\<rparr>;
          locs = locs_in_file (tokens text)
      in case py_max (map (\<lambda>(word, offs). length offs) locs) of
           Inl e \<Rightarrow> (Some e, self1)
         | Inr m \<Rightarrow>
             let doc1 = doc\<lparr>max_tf := m\<rparr>;
                 self2 = self1\<lparr>documents := (documents self1)[i := doc1]\<rparr>
             in (None,
                 fold (\<lambda>(word, offs) s.
                         s\<lparr>terms := dict_set (terms s) word
                                      (dict_get (terms s) word [] @ [Loc doc1 offs])\<rparr>)
                   locs self2))"

text \<open>
  \<^verbatim>\<open>for filename in os.listdir(dir):
    ...
    self.add_doc(filename, text)\<close>
  The directory is given as the list of its files, each with its name and its text. An
  exception of \<open>add_doc\<close> leaves the constructor, and no index is returned.
\<close>

fun add_docs :: "index \<Rightarrow> (string \<times> string) list \<Rightarrow> error + index" where
  "add_docs self [] = Inr self"
| "add_docs self ((fname, text) # files) =
     (case add_doc self fname text of
        (Some e, _) \<Rightarrow> Inl e
      | (None, self1) \<Rightarrow> add_docs self1 files)"

definition Index :: "(string \<times> string) list \<Rightarrow> error + index" where
  "Index dir = add_docs new_index dir"

text \<open>
  The indexes a program can hold: a new one, and what a call of \<open>add_doc\<close> leaves, whether
  it returned or raised (a caller may catch the exception and go on).
\<close>

inductive reachable :: "index \<Rightarrow> bool" where
  reachable_new: "reachable new_index"
| reachable_add_doc: "reachable self \<Longrightarrow> reachable (snd (add_doc self fname text))"

section \<open>Search\<close>

text \<open>
  Scores are Python floats. Their arithmetic (the rounding of the platform's doubles, and
  \<open>math.log\<close> of the C library) is not part of the program, so the search takes it as a
  parameter, for any linearly ordered type \<open>'f\<close> of floats: \<open>f_zero\<close> is \<open>float()\<close>, that
  is \<open>0.0\<close>; \<open>f_div a b\<close> is \<open>a / b\<close> for two \<open>int\<close>s with \<open>b\<close> not zero; \<open>f_inv x\<close> is
  \<open>1 / x\<close>; \<open>f_log\<close> is \<open>math.log\<close>; \<open>f_mul\<close> and \<open>f_add\<close> are \<open>*\<close> and \<open>+\<close> on floats. The
  order of \<open>'f\<close> is the comparison of floats that are not NaN. \<open>exact\<close> is the arithmetic
  of the real numbers, without rounding.
\<close>

record 'f arith =
  f_zero :: 'f
  f_div :: "nat \<Rightarrow> nat \<Rightarrow> 'f"
  f_inv :: "'f \<Rightarrow> 'f"
  f_log :: "'f \<Rightarrow> 'f"
  f_mul :: "'f \<Rightarrow> 'f \<Rightarrow> 'f"
  f_add :: "'f \<Rightarrow> 'f \<Rightarrow> 'f"

definition exact :: "real arith" where
  "exact =
     \<lparr>f_zero = 0, f_div = (\<lambda>a b. real a / real b), f_inv = (\<lambda>x. 1 / x), f_log = ln,
      f_mul = (\<lambda>x y. x * y), f_add = (\<lambda>x y. x + y)\<rparr>"

text \<open>\<^verbatim>\<open>Result = collections.namedtuple("Result", "document score")\<close>\<close>

datatype 'f result = Result (r_document: document) (score: 'f)

text \<open>
  \<^verbatim>\<open>def lookup(self, term):
    return self.terms.get(term, [])\<close>
  The methods of \<open>Index\<close> that a search runs return their value together with the index
  as they leave it, so that what they do to the index is part of the model. \<open>dict.get\<close>
  stores nothing, also in a \<open>defaultdict\<close>.
\<close>

definition lookup :: "index \<Rightarrow> string \<Rightarrow> loc list \<times> index" where
  "lookup self w = (dict_get (terms self) w [], self)"

text \<open>
  \<^verbatim>\<open>def idf(self, term):
    locs = self.lookup(term)
    if locs:
        df = len(locs) / len(self.documents)
        return math.log(1/df)\<close>
  Without postings the method returns \<open>None\<close>. The division of the two lengths raises
  when there is no document.
\<close>

definition idf :: "'f arith \<Rightarrow> index \<Rightarrow> string \<Rightarrow> (error + 'f option) \<times> index" where
  "idf fl self w =
     (case lookup self w of
        (locs, self1) \<Rightarrow>
          if locs \<noteq> [] then
            (if length (documents self1) = 0 then (Inl ZeroDivisionError, self1)
             else let df = f_div fl (length locs) (length (documents self1))
                  in (Inr (Some (f_log fl (f_inv fl df))), self1))
          else (Inr None, self1))"

text \<open>
  \<^verbatim>\<open>tf = 100 * len(loc.offsets) / loc.document.max_tf\<close>, where the division is defined:
  \<open>tf_of fl\<close> is the float the search computes, \<open>tf\<close> the quotient without rounding.
\<close>

definition tf_of :: "'f arith \<Rightarrow> loc \<Rightarrow> 'f" where
  "tf_of fl l = f_div fl (100 * length (offsets l)) (max_tf (document l))"

definition tf :: "loc \<Rightarrow> real" where
  "tf l = 100 * real (length (offsets l)) / real (max_tf (document l))"

text \<open>
  \<^verbatim>\<open>for loc in locs:
    tf = 100 * len(loc.offsets) / loc.document.max_tf
    file_scores[loc.document] += tf * idf\<close>
  \<open>file_scores\<close> is a \<open>defaultdict(float)\<close> local to the search, keyed by document. The
  division raises for a document whose \<open>max_tf\<close> is 0, and the product for an \<open>idf\<close> that
  is \<open>None\<close>.
\<close>

fun add_scores ::
  "'f arith \<Rightarrow> 'f option \<Rightarrow> loc list \<Rightarrow> (document \<times> 'f) list
     \<Rightarrow> error + (document \<times> 'f) list" where
  "add_scores fl i [] file_scores = Inr file_scores"
| "add_scores fl i (l # locs) file_scores =
     (if max_tf (document l) = 0 then Inl ZeroDivisionError
      else case i of
             None \<Rightarrow> Inl TypeError
           | Some v \<Rightarrow>
               add_scores fl i locs
                 (dict_set file_scores (document l)
                    (f_add fl (dict_get file_scores (document l) (f_zero fl))
                       (f_mul fl (tf_of fl l) v))))"

text \<open>
  \<^verbatim>\<open>for word in tokens(query):
    locs = self.lookup(word)
    if locs:
        idf = self.idf(word)
        for loc in locs: ...\<close>
\<close>

fun search_words ::
  "'f arith \<Rightarrow> string list \<Rightarrow> (document \<times> 'f) list \<Rightarrow> index
     \<Rightarrow> (error + (document \<times> 'f) list) \<times> index" where
  "search_words fl [] file_scores self = (Inr file_scores, self)"
| "search_words fl (w # ws) file_scores self =
     (case lookup self w of
        (locs, self1) \<Rightarrow>
          if locs \<noteq> [] then
            (case idf fl self1 w of
               (Inl e, self2) \<Rightarrow> (Inl e, self2)
             | (Inr i, self2) \<Rightarrow>
                 (case add_scores fl i locs file_scores of
                    Inl e \<Rightarrow> (Inl e, self2)
                  | Inr file_scores1 \<Rightarrow> search_words fl ws file_scores1 self2))
          else search_words fl ws file_scores self1)"

text \<open>
  \<open>results[:limit]\<close>: the first \<open>limit\<close> elements, and for a negative \<open>limit\<close> all but the
  last \<open>-limit\<close> elements.
\<close>

definition slice_to :: "int \<Rightarrow> 'a list \<Rightarrow> 'a list" where
  "slice_to limit xs =
     (if 0 \<le> limit then take (nat limit) xs else take (length xs - nat (- limit)) xs)"

text \<open>
  \<^verbatim>\<open>def search(self, query, limit=10):
    file_scores = collections.defaultdict(float)
    for word in tokens(query): ...
    results = [Result(doc, score) for doc, score in file_scores.items()]
    results.sort(key=lambda pair: pair.score, reverse=True)
    return results[:limit]\<close>
  \<open>list.sort\<close> with \<open>reverse=True\<close> reverses the list, sorts it in ascending order of the
  key with a stable sort, and reverses the result; so results with equal scores keep the
  order they have in \<open>results\<close>. \<open>sort_key\<close> is a stable insertion sort.
\<close>

definition search ::
  "('f :: linorder) arith \<Rightarrow> index \<Rightarrow> string \<Rightarrow> int \<Rightarrow> (error + 'f result list) \<times> index" where
  "search fl self query limit =
     (case search_words fl (tokens query) [] self of
        (Inl e, self1) \<Rightarrow> (Inl e, self1)
      | (Inr file_scores, self1) \<Rightarrow>
          let results = map (\<lambda>(doc, sc). Result doc sc) file_scores;
              sorted_results = rev (sort_key (\<lambda>pair. score pair) (rev results))
          in (Inr (slice_to limit sorted_results), self1))"

section \<open>Saving the index\<close>

text \<open>\<open>str\<close> of a natural number, as \<open>"{}".format\<close> writes \<open>max_tf\<close> and the byte counts.\<close>

fun str_nat :: "nat \<Rightarrow> string" where
  "str_nat n =
     (if n < 10 then [char_of (48 + n)] else str_nat (n div 10) @ [char_of (48 + n mod 10)])"

text \<open>\<open>word.encode('utf-8')\<close> for code points below 256: one byte below 128, two bytes from there on.\<close>

type_synonym byte = "8 word"

definition encode_utf8 :: "string \<Rightarrow> byte list" where
  "encode_utf8 s =
     concat (map (\<lambda>c. let n = (of_char c :: nat)
                      in if n < 128 then [of_nat n]
                         else [of_nat (192 + n div 64), of_nat (128 + n mod 64)]) s)"

text \<open>
  The three files of the index directory: the contents of each, or \<open>None\<close> for a file that
  does not exist.
\<close>

record files =
  documents_txt :: "string option"
  index_dat :: "byte list option"
  directory_txt :: "string option"

text \<open>
  \<^verbatim>\<open>bytes_written = 0
for word, locs in self.terms.items():
    bits = word.encode('utf-8') + b"\n"
    for loc in locs:
        bits.append(???)
    directory.append((word, bytes_written, len(bits)))
    f.write(bits)
    bytes_written += len(bits)\<close>
  The source leaves the argument of \<open>bits.append\<close> open. \<open>bits\<close> is a \<open>bytes\<close> object, which
  has no attribute \<open>append\<close>, and Python looks the attribute up before it evaluates the
  argument: whatever stands there, the first posting of the first term that has one raises
  \<open>AttributeError\<close>, before anything of that term is written. The loop returns the
  exception, if any, the directory and the bytes written to the file.
\<close>

fun write_terms ::
  "(string \<times> loc list) list \<Rightarrow> nat \<Rightarrow> (string \<times> nat \<times> nat) list \<Rightarrow> byte list
     \<Rightarrow> error option \<times> (string \<times> nat \<times> nat) list \<times> byte list" where
  "write_terms [] bytes_written directory out = (None, directory, out)"
| "write_terms ((word, locs) # items) bytes_written directory out =
     (let bits = encode_utf8 word @ [10]
      in if locs \<noteq> [] then (Some AttributeError, directory, out)
         else write_terms items (bytes_written + length bits)
                (directory @ [(word, bytes_written, length bits)]) (out @ bits))"

text \<open>
  \<^verbatim>\<open>with open(os.path.join(index_dir, "documents.txt"), "w") as f:
    for doc in self.documents:
        f.write("{},{},{}".format(doc.name, doc.filename, doc.max_tf))
directory = []
with open(os.path.join(index_dir, "index.dat"), "wb") as f: ...
with open(os.path.join(index_dir, "directory.txt"), "w") as f:
    for word, offset, nbytes in directory:
        f.write("{},{},{}".format(word, offset, nbytes))\<close>
  \<open>save\<close> takes the files of the directory as they are and returns the exception raised,
  if any, and the files as it leaves them. Opening a file for writing creates or empties
  it; a \<open>with\<close> block closes its file when an exception leaves it, so what was written
  stays.
\<close>

definition save :: "index \<Rightarrow> files \<Rightarrow> error option \<times> files" where
  "save self fs =
     (let fs1 = fs\<lparr>documents_txt :=
                    Some (concat (map (\<lambda>doc. name doc @ '','' @ filename doc @ '','' @ str_nat (max_tf doc))
                                    (documents self)))\<rparr>
      in case write_terms (terms self) 0 [] [] of
           (Some e, directory, out) \<Rightarrow> (Some e, fs1\<lparr>index_dat := Some out\<rparr>)
         | (None, directory, out) \<Rightarrow>
             (None,
              fs1\<lparr>index_dat := Some out,
                  directory_txt :=
                    Some (concat (map (\<lambda>(word, offset, nbytes).
                                         word @ '','' @ str_nat offset @ '','' @ str_nat nbytes)
                                    directory))\<rparr>))"

section \<open>Notions used to state the properties\<close>

text \<open>The postings that \<open>lookup\<close> returns for a term.\<close>

definition postings :: "index \<Rightarrow> string \<Rightarrow> loc list" where
  "postings self w = fst (lookup self w)"

text \<open>The value \<open>idf\<close> returns for a term that has postings.\<close>

definition idf_value :: "'f arith \<Rightarrow> index \<Rightarrow> string \<Rightarrow> 'f" where
  "idf_value fl self w =
     f_log fl (f_inv fl (f_div fl (length (postings self w)) (length (documents self))))"

text \<open>
  The floats that the scoring loop adds to the score of the document \<open>d\<close>, in the order
  in which it adds them: for each token of the query in turn, and as often as the query
  yields it, \<open>tf * idf\<close> for each posting of the token in \<open>d\<close>. \<open>doc_score\<close> adds them to
  \<open>0.0\<close> in that order.
\<close>

definition added_to :: "'f arith \<Rightarrow> index \<Rightarrow> string list \<Rightarrow> document \<Rightarrow> 'f list" where
  "added_to fl self ws d =
     concat (map (\<lambda>w. map (\<lambda>l. f_mul fl (tf_of fl l) (idf_value fl self w))
                        (filter (\<lambda>l. document l = d) (postings self w))) ws)"

definition doc_score :: "'f arith \<Rightarrow> index \<Rightarrow> string list \<Rightarrow> document \<Rightarrow> 'f" where
  "doc_score fl self ws d = fold (\<lambda>v a. f_add fl a v) (added_to fl self ws d) (f_zero fl)"

text \<open>
  Without rounding, what one occurrence of the term \<open>w\<close> in a query adds to the score of
  the document \<open>d\<close>: \<open>tf \<times> idf\<close> for the posting of \<open>w\<close> in \<open>d\<close>.
\<close>

definition term_score :: "index \<Rightarrow> string \<Rightarrow> document \<Rightarrow> real" where
  "term_score self w d =
     (\<Sum>l\<leftarrow>filter (\<lambda>l. document l = d) (postings self w). tf l * idf_value exact self w)"

text \<open>
  The documents the scoring loop reaches, in the order it reaches them: for each token of
  the query in turn, the documents of its postings. \<open>first_seen\<close> keeps each element
  once, at the place of its first occurrence, as the keys of a \<open>dict\<close> are kept.
\<close>

definition touched :: "index \<Rightarrow> string list \<Rightarrow> document list" where
  "touched self ws = concat (map (\<lambda>w. map document (postings self w)) ws)"

fun first_seen :: "'a list \<Rightarrow> 'a list" where
  "first_seen [] = []"
| "first_seen (x # xs) = x # removeAll x (first_seen xs)"

text \<open>The pairs the scoring loop adds to \<open>file_scores\<close>, and the dictionary they add up to.\<close>

definition contributions :: "'f arith \<Rightarrow> index \<Rightarrow> string list \<Rightarrow> (document \<times> 'f) list" where
  "contributions fl self ws =
     concat (map (\<lambda>w. map (\<lambda>l. (document l, f_mul fl (tf_of fl l) (idf_value fl self w)))
                        (postings self w)) ws)"

definition accumulate :: "'f arith \<Rightarrow> ('k \<times> 'f) list \<Rightarrow> ('k \<times> 'f) list \<Rightarrow> ('k \<times> 'f) list" where
  "accumulate fl kvs fs =
     fold (\<lambda>(k, v) fs. dict_set fs k (f_add fl (dict_get fs k (f_zero fl)) v)) kvs fs"

text \<open>The list \<open>search\<close> sorts and then cuts to \<open>limit\<close>.\<close>

definition ranking :: "('f :: linorder) arith \<Rightarrow> index \<Rightarrow> string \<Rightarrow> 'f result list" where
  "ranking fl self q =
     rev (sort_key (\<lambda>r. score r)
            (rev (map (\<lambda>d. Result d (doc_score fl self (tokens q) d))
                    (first_seen (touched self (tokens q))))))"

text \<open>The steps of the two loops of \<open>add_doc\<close>, and the document it stores for a text with tokens.\<close>

definition add_offset :: "nat \<times> string \<Rightarrow> (string \<times> nat list) list \<Rightarrow> (string \<times> nat list) list" where
  "add_offset = (\<lambda>(i, word) locs. dict_set locs word (dict_get locs word [] @ [i]))"

definition add_loc ::
  "document \<Rightarrow> string \<times> nat list \<Rightarrow> (string \<times> loc list) list \<Rightarrow> (string \<times> loc list) list" where
  "add_loc doc = (\<lambda>(word, offs) d. dict_set d word (dict_get d word [] @ [Loc doc offs]))"

definition new_doc :: "index \<Rightarrow> string \<Rightarrow> string list \<Rightarrow> document" where
  "new_doc self fname ws =
     (Document (length (documents self)) fname)\<lparr>max_tf := Max (count_list ws ` set ws)\<rparr>"

text \<open>
  The invariant of the reachable indexes: every posting belongs to a document whose id is
  below the number of documents, has an offset, and has no more offsets than the
  \<open>max_tf\<close> of its document; and every term of the map has a posting.
\<close>

definition index_locs :: "index \<Rightarrow> loc list" where
  "index_locs self = concat (map snd (terms self))"

definition loc_ok :: "nat \<Rightarrow> loc \<Rightarrow> bool" where
  "loc_ok n l =
     (doc_id (document l) < n \<and> offsets l \<noteq> [] \<and> length (offsets l) \<le> max_tf (document l))"

definition index_inv :: "index \<Rightarrow> bool" where
  "index_inv self = list_all (loc_ok (length (documents self))) (index_locs self)"

definition terms_inv :: "index \<Rightarrow> bool" where
  "terms_inv self = list_all (\<lambda>(w, locs). locs \<noteq> []) (terms self)"

text \<open>
  The display name as the specification words it: the file name without a trailing
  \<open>.txt\<close>, and the file name itself when it does not end in \<open>.txt\<close>.
\<close>

definition strip_txt_suffix :: "string \<Rightarrow> string" where
  "strip_txt_suffix fname =
     (if suffix ''.txt'' fname then take (length fname - 4) fname else fname)"

text \<open>
  The corpus of the specification's scenario, ingested in this order, and a directory
  without files.
\<close>

definition scenario :: index where
  "scenario =
     snd (add_doc (snd (add_doc new_index ''doc0.txt'' ''the cat sat on the mat''))
            ''doc1.txt'' ''the dog sat on a log'')"

definition doc0 :: document where
  "doc0 = \<lparr>doc_id = 0, name = ''doc0'', filename = ''doc0.txt'', max_tf = 1\<rparr>"

definition doc1 :: document where
  "doc1 = \<lparr>doc_id = 1, name = ''doc1'', filename = ''doc1.txt'', max_tf = 1\<rparr>"

definition no_files :: files where
  "no_files = \<lparr>documents_txt = None, index_dat = None, directory_txt = None\<rparr>"

section \<open>Properties of the tokenizer\<close>










section \<open>Properties of dictionaries\<close>

lemma dict_get_set: "dict_get (dict_set d k v) k' x = (if k' = k then v else dict_get d k' x)"
  by (simp add: dict_get_def dict_set_def update_conv')

lemma dict_set_keys:
  "map fst (dict_set d k v) = (if k \<in> set (map fst d) then map fst d else map fst d @ [k])"
  by (simp add: dict_set_def update_keys)

lemma dict_set_distinct: "distinct (map fst d) \<Longrightarrow> distinct (map fst (dict_set d k v))"
  by (simp add: dict_set_def distinct_update)

lemma dict_get_entry: "distinct (map fst d) \<Longrightarrow> (k, v) \<in> set d \<Longrightarrow> dict_get d k x = v"
  by (simp add: dict_get_def)

lemma dict_get_absent: "k \<notin> set (map fst d) \<Longrightarrow> dict_get d k x = x"
  by (simp add: dict_get_def map_of_eq_None_iff [THEN iffD2])

lemma dict_set_dom: "fst ` set (dict_set d k v) = insert k (fst ` set d)"
proof -
  have "set (map fst (dict_set d k v)) = insert k (set (map fst d))"
    unfolding dict_set_keys by auto
  then show ?thesis by simp
qed

lemma dict_items:
  assumes "distinct (map fst d)"
  shows "d = map (\<lambda>k. (k, dict_get d k x)) (map fst d)"
proof -
  have "(k, v) = (k, dict_get d k x)" if "(k, v) \<in> set d" for k v
    using dict_get_entry [OF assms that] by simp
  then have "map (\<lambda>p. p) d = map (\<lambda>p. (fst p, dict_get d (fst p) x)) d"
    by (intro map_cong) auto
  then show ?thesis by (simp add: comp_def)
qed

section \<open>Properties of ingestion\<close>

lemma fold_offsets_keys:
  "fst ` set (fold add_offset (enumerate n ws) acc) = fst ` set acc \<union> set ws"
  by (induction ws arbitrary: n acc) (simp_all add: add_offset_def dict_set_dom)

lemma fold_offsets_distinct:
  "distinct (map fst acc) \<Longrightarrow> distinct (map fst (fold add_offset (enumerate n ws) acc))"
  by (induction ws arbitrary: n acc) (auto simp: add_offset_def dict_set_distinct)

lemma fold_offsets_length:
  "length (dict_get (fold add_offset (enumerate n ws) acc) w []) =
     length (dict_get acc w []) + count_list ws w"
  by (induction ws arbitrary: n acc) (auto simp: add_offset_def dict_get_set)

lemma locs_in_file_fold: "locs_in_file ws = fold add_offset (enumerate 0 ws) []"
  by (simp add: locs_in_file_def add_offset_def)

lemma locs_in_file_keys: "fst ` set (locs_in_file ws) = set ws"
  by (simp add: locs_in_file_fold fold_offsets_keys)

lemma locs_in_file_distinct: "distinct (map fst (locs_in_file ws))"
  by (simp add: locs_in_file_fold fold_offsets_distinct)

lemma locs_in_file_length:
  assumes "(w, offs) \<in> set (locs_in_file ws)"
  shows "length offs = count_list ws w"
proof -
  from assms have "dict_get (locs_in_file ws) w [] = offs"
    by (simp add: dict_get_entry locs_in_file_distinct)
  then show ?thesis using fold_offsets_length [of 0 ws "[]" w]
    by (simp add: locs_in_file_fold dict_get_def)
qed

lemma locs_in_file_lengths:
  "map (\<lambda>(word, offs). length offs) (locs_in_file ws) = map (count_list ws) (map fst (locs_in_file ws))"
  using locs_in_file_length by (auto simp: case_prod_beta)

lemma locs_in_file_empty: "locs_in_file ws = [] \<longleftrightarrow> ws = []"
  using locs_in_file_keys [of ws] by (metis image_is_empty set_empty)

lemma py_max_Max:
  assumes "xs \<noteq> []"
  shows "py_max xs = Inr (Max (set xs))"
proof (cases xs)
  case Nil
  with assms show ?thesis by simp
next
  case (Cons a list)
  then show ?thesis using Max.set_eq_fold [of a list] by simp
qed

lemma max_tf_value:
  assumes "ws \<noteq> []"
  shows "py_max (map (\<lambda>(word, offs). length offs) (locs_in_file ws)) = Inr (Max (count_list ws ` set ws))"
proof -
  have "map (\<lambda>(word, offs). length offs) (locs_in_file ws) \<noteq> []"
    using assms by (simp add: locs_in_file_empty)
  from py_max_Max [OF this] show ?thesis
    by (simp add: locs_in_file_lengths locs_in_file_keys image_image [symmetric])
qed

lemma fold_terms:
  "fold (\<lambda>(word, offs) s. s\<lparr>terms := dict_set (terms s) word (dict_get (terms s) word [] @ [Loc doc offs])\<rparr>) locs s
   = s\<lparr>terms := fold (add_loc doc) locs (terms s)\<rparr>"
  by (induction locs arbitrary: s) (auto simp: add_loc_def)

lemma add_doc_tokens:
  assumes "tokens text \<noteq> []"
  shows "add_doc self fname text =
     (None, \<lparr>documents = documents self @ [new_doc self fname (tokens text)],
             terms = fold (add_loc (new_doc self fname (tokens text))) (locs_in_file (tokens text)) (terms self)\<rparr>)"
  by (simp add: add_doc_def Let_def max_tf_value [OF assms] fold_terms new_doc_def)

lemma add_doc_no_tokens:
  assumes "tokens text = []"
  shows "add_doc self fname text =
     (Some ValueError, self\<lparr>documents := documents self @ [Document (length (documents self)) fname]\<rparr>)"
  using assms by (simp add: add_doc_def Let_def locs_in_file_def)

lemma fold_add_loc_other:
  "w \<notin> fst ` set locs \<Longrightarrow> dict_get (fold (add_loc doc) locs d) w x = dict_get d w x"
  by (induction locs arbitrary: d) (auto simp: add_loc_def dict_get_set)

lemma fold_add_loc_entry:
  "distinct (map fst locs) \<Longrightarrow> (w, offs) \<in> set locs \<Longrightarrow>
     dict_get (fold (add_loc doc) locs d) w [] = dict_get d w [] @ [Loc doc offs]"
proof (induction locs arbitrary: d)
  case Nil
  then show ?case by simp
next
  case (Cons p locs)
  obtain w' offs' where p: "p = (w', offs')" by (cases p)
  show ?case
  proof (cases "w' = w")
    case True
    with Cons.prems p have "offs' = offs" and "w \<notin> fst ` set locs" by (auto simp: image_iff)
    then show ?thesis using p True
      by (simp add: fold_add_loc_other) (simp add: add_loc_def dict_get_set)
  next
    case False
    with Cons.prems p have "(w, offs) \<in> set locs" and "distinct (map fst locs)" by auto
    from Cons.IH [OF this(2) this(1)] show ?thesis using p False
      by (simp add: add_loc_def dict_get_set)
  qed
qed

lemma dict_set_entries:
  "(k', v') \<in> set (dict_set d k v) \<Longrightarrow> (k', v') \<in> set d \<or> (k' = k \<and> v' = v)"
  unfolding dict_set_def by (induction d) (auto split: if_splits)

lemma dict_get_values:
  assumes "l \<in> set (dict_get d k [])"
  shows "l \<in> set (concat (map snd d))"
proof (cases "map_of d k")
  case None
  with assms show ?thesis by (simp add: dict_get_def)
next
  case (Some u)
  then have "(k, u) \<in> set d" by (rule map_of_SomeD)
  moreover from assms Some have "l \<in> set u" by (simp add: dict_get_def)
  ultimately show ?thesis by force
qed

lemma add_loc_values:
  assumes "l \<in> set (concat (map snd (add_loc doc (w, offs) d)))"
  shows "l \<in> set (concat (map snd d)) \<or> l = Loc doc offs"
proof -
  from assms obtain k v where kv: "(k, v) \<in> set (dict_set d w (dict_get d w [] @ [Loc doc offs]))"
    and l: "l \<in> set v"
    by (auto simp: add_loc_def)
  from dict_set_entries [OF kv] show ?thesis
  proof
    assume "(k, v) \<in> set d"
    with l show ?thesis by force
  next
    assume "k = w \<and> v = dict_get d w [] @ [Loc doc offs]"
    with l dict_get_values [of l d w] show ?thesis by auto
  qed
qed

lemma fold_add_loc_values:
  "l \<in> set (concat (map snd (fold (add_loc doc) locs d))) \<Longrightarrow>
     l \<in> set (concat (map snd d)) \<or> (\<exists>w offs. (w, offs) \<in> set locs \<and> l = Loc doc offs)"
proof (induction locs arbitrary: d)
  case Nil
  then show ?case by simp
next
  case (Cons p locs)
  obtain w offs where p: "p = (w, offs)" by (cases p)
  from Cons.prems have "l \<in> set (concat (map snd (fold (add_loc doc) locs (add_loc doc (w, offs) d))))"
    by (simp add: p)
  from Cons.IH [OF this] show ?case
  proof
    assume "l \<in> set (concat (map snd (add_loc doc (w, offs) d)))"
    from add_loc_values [OF this] show ?thesis using p by auto
  next
    assume "\<exists>w offs. (w, offs) \<in> set locs \<and> l = Loc doc offs"
    then show ?thesis by auto
  qed
qed

lemma loc_ok_mono: "loc_ok n l \<Longrightarrow> n \<le> m \<Longrightarrow> loc_ok m l"
  by (simp add: loc_ok_def)

lemma new_loc_ok:
  assumes "(w, offs) \<in> set (locs_in_file ws)"
  shows "loc_ok (Suc (length (documents self))) (Loc (new_doc self fname ws) offs)"
proof -
  from assms have w: "w \<in> set ws" using locs_in_file_keys [of ws] by force
  have len: "length offs = count_list ws w" by (rule locs_in_file_length [OF assms])
  from w have "count_list ws w \<noteq> 0" by (simp add: count_list_0_iff)
  then have "0 < count_list ws w" by simp
  moreover from w have "count_list ws w \<le> Max (count_list ws ` set ws)" by simp
  ultimately show ?thesis using len by (auto simp: loc_ok_def new_doc_def Document_def)
qed

lemma add_doc_inv:
  assumes "index_inv self"
  shows "index_inv (snd (add_doc self fname text))"
proof (cases "tokens text = []")
  case True
  have "loc_ok (Suc (length (documents self))) l" if "l \<in> set (index_locs self)" for l
  proof -
    from assms that have "loc_ok (length (documents self)) l"
      by (simp add: index_inv_def list_all_iff)
    then show ?thesis by (rule loc_ok_mono) simp
  qed
  then show ?thesis
    by (simp add: add_doc_no_tokens [OF True] index_inv_def list_all_iff index_locs_def)
next
  case False
  have "loc_ok (Suc (length (documents self))) l"
    if "l \<in> set (concat (map snd (fold (add_loc (new_doc self fname (tokens text))) (locs_in_file (tokens text)) (terms self))))"
    for l
    using fold_add_loc_values [OF that]
  proof
    assume "l \<in> set (concat (map snd (terms self)))"
    with assms have "loc_ok (length (documents self)) l"
      by (auto simp: index_inv_def index_locs_def list_all_iff)
    then show ?thesis by (rule loc_ok_mono) simp
  next
    assume "\<exists>w offs. (w, offs) \<in> set (locs_in_file (tokens text)) \<and> l = Loc (new_doc self fname (tokens text)) offs"
    then show ?thesis using new_loc_ok by blast
  qed
  then show ?thesis
    by (simp add: add_doc_tokens [OF False] index_inv_def index_locs_def list_all_iff)
qed

lemma reachable_inv: "reachable self \<Longrightarrow> index_inv self"
  by (induction rule: reachable.induct)
     (simp_all add: add_doc_inv, simp add: index_inv_def index_locs_def new_index_def)

lemma postings_locs: "l \<in> set (postings self w) \<Longrightarrow> l \<in> set (index_locs self)"
  unfolding postings_def lookup_def index_locs_def by (simp only: fst_conv) (rule dict_get_values)

lemma postings_ok:
  "index_inv self \<Longrightarrow> l \<in> set (postings self w) \<Longrightarrow> loc_ok (length (documents self)) l"
  using postings_locs [of l self w] by (simp add: index_inv_def list_all_iff)

section \<open>The dictionary of scores\<close>

lemma removeAll_first_seen: "removeAll k (first_seen xs) = first_seen (removeAll k xs)"
proof (induction xs)
  case Nil
  then show ?case by simp
next
  case (Cons x xs)
  have comm: "removeAll k (removeAll x ys) = removeAll x (removeAll k ys)" for ys :: "'a list"
    by (induction ys) auto
  show ?case
  proof (cases "x = k")
    case True
    have "removeAll k (removeAll k (first_seen xs)) = removeAll k (first_seen xs)"
      by (simp add: removeAll_id)
    then have "removeAll k (first_seen (removeAll k xs)) = first_seen (removeAll k xs)"
      by (simp only: Cons.IH)
    with True show ?thesis by (simp add: Cons.IH)
  next
    case False
    then show ?thesis using Cons.IH by (simp add: comm)
  qed
qed

lemma set_first_seen: "set (first_seen xs) = set xs"
  by (induction xs) auto

lemma distinct_first_seen: "distinct (first_seen xs)"
  by (induction xs) (auto simp: distinct_removeAll)

lemma accumulate_Nil: "accumulate fl [] fs = fs"
  by (simp add: accumulate_def)

lemma accumulate_Cons:
  "accumulate fl ((k, v) # kvs) fs =
     accumulate fl kvs (dict_set fs k (f_add fl (dict_get fs k (f_zero fl)) v))"
  by (simp add: accumulate_def)

lemma accumulate_append: "accumulate fl (xs @ ys) fs = accumulate fl ys (accumulate fl xs fs)"
  by (simp add: accumulate_def)

lemma accumulate_distinct:
  "distinct (map fst fs) \<Longrightarrow> distinct (map fst (accumulate fl kvs fs))"
proof (induction kvs arbitrary: fs)
  case Nil
  then show ?case by (simp add: accumulate_Nil)
next
  case (Cons p kvs)
  obtain k v where p: "p = (k, v)" by (cases p)
  show ?case unfolding p accumulate_Cons
    by (rule Cons.IH) (rule dict_set_distinct [OF Cons.prems])
qed

lemma accumulate_value:
  "dict_get (accumulate fl kvs fs) k (f_zero fl) =
     fold (\<lambda>v a. f_add fl a v) (map snd (filter (\<lambda>p. fst p = k) kvs))
       (dict_get fs k (f_zero fl))"
proof (induction kvs arbitrary: fs)
  case Nil
  then show ?case by (simp add: accumulate_Nil)
next
  case (Cons p kvs)
  obtain k' v where p: "p = (k', v)" by (cases p)
  show ?case unfolding p accumulate_Cons Cons.IH
    by (simp add: dict_get_set)
qed

lemma accumulate_keys:
  "map fst (accumulate fl kvs fs) =
     map fst fs @ first_seen (filter (\<lambda>k. k \<notin> set (map fst fs)) (map fst kvs))"
proof (induction kvs arbitrary: fs)
  case Nil
  then show ?case by (simp add: accumulate_Nil)
next
  case (Cons p kvs)
  obtain k v where p: "p = (k, v)" by (cases p)
  let ?fs = "dict_set fs k (f_add fl (dict_get fs k (f_zero fl)) v)"
  have step: "map fst (accumulate fl (p # kvs) fs) =
     map fst ?fs @ first_seen (filter (\<lambda>x. x \<notin> set (map fst ?fs)) (map fst kvs))"
    unfolding p accumulate_Cons by (rule Cons.IH)
  show ?case
  proof (cases "k \<in> set (map fst fs)")
    case True
    then have "map fst ?fs = map fst fs" by (simp add: dict_set_keys)
    with step True show ?thesis by (simp add: p)
  next
    case False
    then have keys: "map fst ?fs = map fst fs @ [k]" by (simp add: dict_set_keys)
    have "filter (\<lambda>x. x \<notin> set (map fst fs @ [k])) (map fst kvs) =
          removeAll k (filter (\<lambda>x. x \<notin> set (map fst fs)) (map fst kvs))"
      by (induction kvs) auto
    with step keys False show ?thesis
      by (simp add: p removeAll_first_seen)
  qed
qed

lemma accumulate_closed:
  "accumulate fl kvs [] =
     map (\<lambda>k. (k, fold (\<lambda>v a. f_add fl a v) (map snd (filter (\<lambda>p. fst p = k) kvs)) (f_zero fl)))
       (first_seen (map fst kvs))"
proof -
  have d: "distinct (map fst (accumulate fl kvs ([] :: ('a \<times> 'b) list)))"
    by (rule accumulate_distinct) simp
  have v: "dict_get (accumulate fl kvs []) k (f_zero fl) =
             fold (\<lambda>v a. f_add fl a v) (map snd (filter (\<lambda>p. fst p = k) kvs)) (f_zero fl)" for k
    unfolding accumulate_value by (simp add: dict_get_def)
  have k: "map fst (accumulate fl kvs []) = first_seen (map fst kvs)"
    unfolding accumulate_keys by simp
  from dict_items [OF d, of "f_zero fl"] show ?thesis unfolding v k .
qed

lemma lookup_postings: "lookup self w = (postings self w, self)"
  by (simp add: postings_def lookup_def)

lemma add_scores_accumulate:
  "(\<And>l. l \<in> set locs \<Longrightarrow> 0 < max_tf (document l)) \<Longrightarrow>
     add_scores fl (Some v) locs fs =
       Inr (accumulate fl (map (\<lambda>l. (document l, f_mul fl (tf_of fl l) v)) locs) fs)"
proof (induction locs arbitrary: fs)
  case Nil
  then show ?case by (simp add: accumulate_Nil)
next
  case (Cons l locs)
  from Cons.prems [of l] have "max_tf (document l) \<noteq> 0" by simp
  then show ?case using Cons.IH Cons.prems by (simp add: accumulate_Cons)
qed

lemma idf_postings:
  assumes "index_inv self" and "postings self w \<noteq> []"
  shows "idf fl self w = (Inr (Some (idf_value fl self w)), self)"
proof -
  from assms(2) obtain l where "l \<in> set (postings self w)" by (cases "postings self w") auto
  from postings_ok [OF assms(1) this] have "documents self \<noteq> []" by (auto simp: loc_ok_def)
  with assms(2) show ?thesis by (simp add: idf_def lookup_postings idf_value_def)
qed

lemma contributions_Cons:
  "contributions fl self (w # ws) =
     map (\<lambda>l. (document l, f_mul fl (tf_of fl l) (idf_value fl self w))) (postings self w)
     @ contributions fl self ws"
  by (simp add: contributions_def)

lemma search_words_accumulate:
  assumes "index_inv self"
  shows "search_words fl ws fs self = (Inr (accumulate fl (contributions fl self ws) fs), self)"
proof (induction ws arbitrary: fs)
  case Nil
  then show ?case by (simp add: contributions_def accumulate_Nil)
next
  case (Cons w ws)
  show ?case
  proof (cases "postings self w = []")
    case True
    then show ?thesis using Cons.IH by (simp add: lookup_postings contributions_Cons)
  next
    case False
    have "0 < max_tf (document l)" if "l \<in> set (postings self w)" for l
      using postings_ok [OF assms that] by (cases "offsets l") (auto simp: loc_ok_def)
    then have "add_scores fl (Some (idf_value fl self w)) (postings self w) fs =
      Inr (accumulate fl (map (\<lambda>l. (document l, f_mul fl (tf_of fl l) (idf_value fl self w)))
                            (postings self w)) fs)"
      by (rule add_scores_accumulate)
    then show ?thesis using False Cons.IH
      by (simp add: lookup_postings idf_postings [OF assms False] contributions_Cons
                    accumulate_append)
  qed
qed

lemma contributions_keys: "map fst (contributions fl self ws) = touched self ws"
  by (induction ws) (simp_all add: contributions_def touched_def comp_def)

lemma contributions_added:
  "map snd (filter (\<lambda>p. fst p = d) (contributions fl self ws)) = added_to fl self ws d"
proof (induction ws)
  case Nil
  then show ?case by (simp add: contributions_def added_to_def)
next
  case (Cons w ws)
  have "map snd (filter (\<lambda>p. fst p = d) (map (\<lambda>l. (document l, g l)) ls))
        = map g (filter (\<lambda>l. document l = d) ls)" for ls and g :: "loc \<Rightarrow> 'a"
    by (induction ls) auto
  then show ?case using Cons.IH
    by (simp add: contributions_Cons added_to_def)
qed

lemma search_ranking:
  assumes "index_inv self"
  shows "search fl self q limit = (Inr (slice_to limit (ranking fl self q)), self)"
proof -
  have "map (\<lambda>(doc, sc). Result doc sc) (accumulate fl (contributions fl self (tokens q)) [])
        = map (\<lambda>d. Result d (doc_score fl self (tokens q) d)) (first_seen (touched self (tokens q)))"
    unfolding accumulate_closed contributions_keys contributions_added
    by (simp add: comp_def doc_score_def)
  then show ?thesis
    by (simp add: search_def search_words_accumulate [OF assms] ranking_def)
qed

text \<open>Without rounding, the score is the sum of the contributions of the tokens.\<close>

lemma tf_of_exact: "tf_of exact l = tf l"
  by (simp add: tf_of_def tf_def exact_def)

lemma fold_add_exact: "fold (\<lambda>v a. f_add exact a v) xs s = s + sum_list xs"
  by (induction xs arbitrary: s) (simp_all add: exact_def)

lemma doc_score_exact: "doc_score exact self ws d = (\<Sum>w\<leftarrow>ws. term_score self w d)"
proof -
  have "sum_list (added_to exact self ws d) = (\<Sum>w\<leftarrow>ws. term_score self w d)"
  proof (induction ws)
    case Nil
    then show ?case by (simp add: added_to_def)
  next
    case (Cons w ws)
    have "sum_list (map (\<lambda>l. f_mul exact (tf_of exact l) (idf_value exact self w))
                      (filter (\<lambda>l. document l = d) (postings self w))) = term_score self w d"
      by (simp add: term_score_def tf_of_exact) (simp add: exact_def)
    with Cons.IH show ?case by (simp add: added_to_def)
  qed
  then show ?thesis by (simp add: doc_score_def fold_add_exact) (simp add: exact_def)
qed

section \<open>The scenario corpus\<close>

lemma scenario_eq:
  "scenario = \<lparr>documents = [doc0, doc1],
                terms = [(''cat'', [Loc doc0 [0]]), (''sat'', [Loc doc0 [1], Loc doc1 [1]]),
                         (''mat'', [Loc doc0 [2]]), (''dog'', [Loc doc1 [0]]),
                         (''log'', [Loc doc1 [2]])]\<rparr>"
  unfolding scenario_def doc0_def doc1_def by code_simp

lemma reachable_scenario: "reachable scenario"
  unfolding scenario_def by (intro reachable.intros)

lemma tokens_dog_cat: "tokens ''dog cat'' = [''dog'', ''cat'']"
  by code_simp

lemma tokens_sat: "tokens ''sat'' = [''sat'']"
  by code_simp

lemma tokens_cat_cat: "tokens ''cat cat'' = [''cat'', ''cat'']"
  by code_simp

section \<open>Properties of the ranking\<close>

lemma ranking_documents:
  "distinct (map r_document (ranking fl self q))
   \<and> set (map r_document (ranking fl self q)) = set (touched self (tokens q))"
proof -
  let ?ks = "first_seen (touched self (tokens q))"
  let ?xs = "map (\<lambda>d. Result d (doc_score fl self (tokens q) d)) ?ks"
  have "distinct (rev ?xs)" by (simp add: distinct_map distinct_first_seen inj_on_def)
  moreover have "inj_on r_document (set ?xs)" by (auto simp: inj_on_def)
  ultimately have "distinct (map r_document (rev (sort_key (\<lambda>r. score r) (rev ?xs))))"
    by (simp add: distinct_map)
  moreover have "set (map r_document (rev (sort_key (\<lambda>r. score r) (rev ?xs))))
                   = set (touched self (tokens q))"
    by (simp add: image_image set_first_seen)
  ultimately show ?thesis by (simp add: ranking_def)
qed

lemma ranking_scores:
  "r \<in> set (ranking fl self q) \<Longrightarrow> score r = doc_score fl self (tokens q) (r_document r)"
  by (auto simp: ranking_def)

lemma ranking_sorted: "sorted_wrt (\<lambda>a b. score b \<le> score a) (ranking fl self q)"
proof -
  have "sorted (map (\<lambda>r. score r) (sort_key (\<lambda>r. score r) ys))" for ys :: "'a result list"
    by (rule sorted_sort_key)
  then have "sorted_wrt (\<lambda>a b. score a \<le> score b) (sort_key (\<lambda>r. score r) ys)"
    for ys :: "'a result list"
    by (simp add: sorted_map)
  then show ?thesis by (simp add: ranking_def sorted_wrt_rev)
qed

lemma ranking_stable:
  "map r_document (filter (\<lambda>r. score r = s) (ranking fl self q)) =
     filter (\<lambda>d. doc_score fl self (tokens q) d = s) (first_seen (touched self (tokens q)))"
proof -
  let ?xs = "map (\<lambda>d. Result d (doc_score fl self (tokens q) d)) (first_seen (touched self (tokens q)))"
  have "filter (\<lambda>r. score r = s) (sort_key (\<lambda>r. score r) (rev ?xs))
          = filter (\<lambda>r. score r = s) (rev ?xs)"
    by (rule sort_key_stable)
  then have "rev (filter (\<lambda>r. score r = s) (sort_key (\<lambda>r. score r) (rev ?xs)))
          = rev (filter (\<lambda>r. score r = s) (rev ?xs))"
    by simp
  then have "filter (\<lambda>r. score r = s) (ranking fl self q) = filter (\<lambda>r. score r = s) ?xs"
    by (simp add: ranking_def rev_filter)
  then show ?thesis by (simp add: filter_map comp_def)
qed

lemma count_sum:
  fixes f :: "'a \<Rightarrow> real"
  shows "sum_list (map f xs) = (\<Sum>t\<in>set xs. real (count_list xs t) * f t)"
proof (induction xs)
  case Nil
  then show ?case by simp
next
  case (Cons x xs)
  have "(\<Sum>t\<in>set (x # xs). real (count_list (x # xs) t) * f t)
        = (\<Sum>t\<in>set (x # xs). real (count_list xs t) * f t + (if t = x then f x else 0))"
    by (intro sum.cong) (auto simp: algebra_simps)
  also have "\<dots> = (\<Sum>t\<in>set (x # xs). real (count_list xs t) * f t) + f x"
    by (simp add: sum.distrib)
  also have "(\<Sum>t\<in>set (x # xs). real (count_list xs t) * f t) = (\<Sum>t\<in>set xs. real (count_list xs t) * f t)"
  proof (cases "x \<in> set xs")
    case True
    then show ?thesis by (simp add: insert_absorb)
  next
    case False
    then show ?thesis by (simp add: count_list_0_iff)
  qed
  finally show ?case using Cons.IH by simp
qed

section \<open>What a search leaves of the index\<close>

lemma search_words_index: "snd (search_words fl ws fs self) = self"
  by (induction ws arbitrary: fs)
     (auto simp: lookup_def idf_def Let_def split: prod.splits sum.splits if_splits)

section \<open>Properties of \<open>str.replace\<close>\<close>

lemma str_replace_absent:
  "old \<noteq> [] \<Longrightarrow> \<not> sublist old s \<Longrightarrow> str_replace old new s = s"
proof (induction s)
  case Nil
  then show ?case by simp
next
  case (Cons c s)
  from Cons.prems have "\<not> prefix old (c # s)" and "\<not> sublist old s"
    by (auto simp: sublist_Cons_right)
  with Cons show ?case by simp
qed

lemma txt_not_prefix:
  assumes "\<not> sublist ''.txt'' (c # a)"
  shows "\<not> prefix ''.txt'' (c # a @ ''.txt'' @ b)"
proof
  assume p: "prefix ''.txt'' (c # a @ ''.txt'' @ b)"
  have "prefix ''.txt'' (c # a)"
  proof (cases a)
    case Nil
    with p show ?thesis by simp
  next
    case (Cons a1 r1)
    show ?thesis
    proof (cases r1)
      case Nil
      with p Cons show ?thesis by simp
    next
      case (Cons a2 r2)
      note c2 = this
      show ?thesis
      proof (cases r2)
        case Nil
        with p c2 \<open>a = a1 # r1\<close> show ?thesis by simp
      next
        case (Cons a3 r3)
        with p c2 \<open>a = a1 # r1\<close> show ?thesis by auto
      qed
    qed
  qed
  with assms show False by (auto dest: prefix_imp_sublist)
qed

lemma str_replace_skip:
  "old \<noteq> [] \<Longrightarrow> \<not> prefix old (c # s) \<Longrightarrow>
     str_replace old new (c # s) = c # str_replace old new s"
  by simp

lemma str_replace_txt:
  "\<not> sublist ''.txt'' a \<Longrightarrow>
     str_replace ''.txt'' '''' (a @ ''.txt'' @ b) = a @ str_replace ''.txt'' '''' b"
proof (induction a)
  case Nil
  then show ?case by simp
next
  case (Cons c a)
  from Cons.prems have "\<not> sublist ''.txt'' a" by (auto simp: sublist_Cons_right)
  then have ih: "str_replace ''.txt'' '''' (a @ ''.txt'' @ b) = a @ str_replace ''.txt'' '''' b"
    by (rule Cons.IH)
  have "str_replace ''.txt'' '''' (c # a @ ''.txt'' @ b) =
        c # str_replace ''.txt'' '''' (a @ ''.txt'' @ b)"
    by (rule str_replace_skip [OF _ txt_not_prefix [OF Cons.prems]]) simp
  with ih show ?case by (simp only: append_Cons)
qed

section \<open>Terms and their postings\<close>

lemma add_loc_terms_inv:
  assumes "list_all (\<lambda>(w, locs). locs \<noteq> []) d"
  shows "list_all (\<lambda>(w, locs). locs \<noteq> []) (fold (add_loc doc) locs d)"
  using assms
proof (induction locs arbitrary: d)
  case Nil
  then show ?case by simp
next
  case (Cons p locs)
  obtain w offs where p: "p = (w, offs)" by (cases p)
  have "list_all (\<lambda>(w, locs). locs \<noteq> []) (add_loc doc (w, offs) d)"
    unfolding list_all_iff
  proof
    fix e assume e: "e \<in> set (add_loc doc (w, offs) d)"
    obtain k v where kv: "e = (k, v)" by (cases e)
    from e kv dict_set_entries [of k v d w "dict_get d w [] @ [Loc doc offs]"]
    have "(k, v) \<in> set d \<or> v = dict_get d w [] @ [Loc doc offs]"
      by (auto simp: add_loc_def)
    with Cons.prems kv show "case e of (w, locs) \<Rightarrow> locs \<noteq> []"
      by (auto simp: list_all_iff)
  qed
  from Cons.IH [OF this] show ?case by (simp add: p)
qed

lemma reachable_terms_inv: "reachable self \<Longrightarrow> terms_inv self"
proof (induction rule: reachable.induct)
  case reachable_new
  then show ?case by (simp add: terms_inv_def new_index_def)
next
  case (reachable_add_doc self fname body)
  show ?case
  proof (cases "tokens body = []")
    case True
    with reachable_add_doc.IH show ?thesis by (simp add: add_doc_no_tokens terms_inv_def)
  next
    case False
    from reachable_add_doc.IH show ?thesis
      by (simp add: add_doc_tokens [OF False] terms_inv_def add_loc_terms_inv)
  qed
qed

section \<open>Evaluations on the scenario corpus\<close>

lemma search_dog_cat:
  "search exact scenario ''dog cat'' limit =
     (Inr (slice_to limit [Result doc1 (100 * ln 2), Result doc0 (100 * ln 2)]), scenario)"
  by (simp add: scenario_eq tokens_dog_cat search_def lookup_def idf_def dict_get_def
        dict_set_def tf_of_def exact_def doc0_def doc1_def)

lemma search_sat:
  "search exact scenario ''sat'' limit =
     (Inr (slice_to limit [Result doc0 0, Result doc1 0]), scenario)"
  by (simp add: scenario_eq tokens_sat search_def lookup_def idf_def dict_get_def
        dict_set_def tf_of_def exact_def doc0_def doc1_def)

lemma search_cat_cat:
  "search exact scenario ''cat cat'' limit =
     (Inr (slice_to limit [Result doc0 (200 * ln 2)]), scenario)"
  by (simp add: scenario_eq tokens_cat_cat search_def lookup_def idf_def dict_get_def
        dict_set_def tf_of_def exact_def doc0_def doc1_def)

text \<open>
  Whatever the arithmetic, the query \<open>dog cat\<close> computes the scores of the two documents
  by the same operations on the same numbers, and returns the second document first.
\<close>

lemma search_dog_cat_any:
  "search fl scenario ''dog cat'' limit =
     (Inr (slice_to limit
        [Result doc1 (f_add fl (f_zero fl) (f_mul fl (f_div fl 100 1) (f_log fl (f_inv fl (f_div fl 1 2))))),
         Result doc0 (f_add fl (f_zero fl) (f_mul fl (f_div fl 100 1) (f_log fl (f_inv fl (f_div fl 1 2)))))]),
      scenario)"
  by (simp add: scenario_eq tokens_dog_cat search_def lookup_def idf_def dict_get_def
        dict_set_def tf_of_def doc0_def doc1_def numeral_2_eq_2)

lemma term_score_cat: "term_score scenario ''cat'' doc0 = 100 * ln 2"
  by (simp add: term_score_def postings_def lookup_def dict_get_def scenario_eq idf_value_def
        tf_def exact_def doc0_def)

lemma save_scenario:
  "save scenario no_files =
     (Some AttributeError,
      \<lparr>documents_txt = Some ''doc0,doc0.txt,1doc1,doc1.txt,1'', index_dat = Some [],
       directory_txt = None\<rparr>)"
  unfolding scenario_def no_files_def by code_simp

lemma set_slice_to: "set (slice_to k xs) \<subseteq> set xs"
  by (auto simp: slice_to_def dest: in_set_takeD)

lemma touched_postings:
  "d \<in> set (touched self ws) \<Longrightarrow> \<exists>w l. l \<in> set (postings self w) \<and> d = document l"
  by (auto simp: touched_def)

lemma tf_bounds:
  assumes "offsets l \<noteq> []" and "length (offsets l) \<le> max_tf (document l)"
  shows "0 < tf l \<and> tf l \<le> 100 \<and> (tf l = 100 \<longleftrightarrow> length (offsets l) = max_tf (document l))"
proof -
  from assms(1) have c: "0 < length (offsets l)" by simp
  with assms(2) have m: "0 < max_tf (document l)" by linarith
  from c m have "0 < tf l" by (simp add: tf_def)
  moreover from assms(2) m have "tf l \<le> 100" by (simp add: tf_def field_simps)
  moreover from m have "tf l = 100 \<longleftrightarrow> length (offsets l) = max_tf (document l)"
    by (simp add: tf_def field_simps)
  ultimately show ?thesis by simp
qed

lemma add_doc_postings:
  assumes "w \<in> set (tokens body)"
  shows "\<exists>offs. postings (snd (add_doc self fname body)) w =
                  postings self w @ [Loc (new_doc self fname (tokens body)) offs]
               \<and> length offs = count_list (tokens body) w"
proof -
  from assms have ne: "tokens body \<noteq> []" by auto
  from assms obtain offs where offs: "(w, offs) \<in> set (locs_in_file (tokens body))"
    using locs_in_file_keys [of "tokens body"] by force
  have "postings (snd (add_doc self fname body)) w =
          postings self w @ [Loc (new_doc self fname (tokens body)) offs]"
    using fold_add_loc_entry [OF locs_in_file_distinct offs]
    by (simp add: add_doc_tokens [OF ne] postings_def lookup_def)
  with locs_in_file_length [OF offs] show ?thesis by blast
qed

section \<open>Indexes built from a directory\<close>

lemma add_docs_reachable:
  "reachable self \<Longrightarrow> add_docs self dir = Inr self1 \<Longrightarrow> reachable self1"
proof (induction dir arbitrary: self)
  case Nil
  then show ?case by simp
next
  case (Cons entry dir)
  obtain fname body where entry: "entry = (fname, body)" by (cases entry)
  obtain e self2 where a: "add_doc self fname body = (e, self2)" by (cases "add_doc self fname body")
  with Cons.prems(2) entry have e: "e = None" and rest: "add_docs self2 dir = Inr self1"
    by (auto split: option.splits)
  from reachable_add_doc [OF Cons.prems(1), of fname body] a have "reachable self2" by simp
  from Cons.IH [OF this rest] show ?case .
qed

lemma Index_reachable: "Index dir = Inr self \<Longrightarrow> reachable self"
  unfolding Index_def by (rule add_docs_reachable [OF reachable_new])

section \<open>Term frequency\<close>

text \<open>
  C6. When a document is ingested, every term \<open>w\<close> among its tokens gets one new posting
  for that document, with as many offsets as \<open>w\<close> occurs among the tokens, and the
  document's \<open>max_tf\<close> is the highest such count; the \<open>tf\<close> of the posting is
  \<open>100 \<times> occurrences / max_tf\<close>, it lies in \<open>(0, 100]\<close>, and it is 100 exactly when the
  count of \<open>w\<close> is \<open>max_tf\<close>. The bounds hold for every posting of every reachable index.
  \<open>tf\<close> is the quotient without rounding, which is what the search computes in the exact
  arithmetic.
\<close>

theorem tf_range:
  "(w \<in> set (tokens body) \<longrightarrow>
      (\<exists>l. postings (snd (add_doc self fname body)) w = postings self w @ [l]
           \<and> document l = last (documents (snd (add_doc self fname body)))
           \<and> doc_id (document l) = length (documents self)
           \<and> length (offsets l) = count_list (tokens body) w
           \<and> max_tf (document l) = Max (count_list (tokens body) ` set (tokens body))
           \<and> tf l = 100 * real (count_list (tokens body) w) / real (max_tf (document l))
           \<and> 0 < tf l \<and> tf l \<le> 100
           \<and> (tf l = 100 \<longleftrightarrow> count_list (tokens body) w = max_tf (document l))))
   \<and> (reachable self \<longrightarrow>
        (\<forall>t. \<forall>l\<in>set (postings self t).
           0 < tf l \<and> tf l \<le> 100 \<and> (tf l = 100 \<longleftrightarrow> length (offsets l) = max_tf (document l))))
   \<and> (\<forall>l. tf_of exact l = tf l)"
proof (intro conjI impI allI)
  assume w: "w \<in> set (tokens body)"
  then have ne: "tokens body \<noteq> []" by auto
  let ?d = "new_doc self fname (tokens body)"
  from add_doc_postings [OF w] obtain offs where
    p: "postings (snd (add_doc self fname body)) w = postings self w @ [Loc ?d offs]"
    and len: "length offs = count_list (tokens body) w"
    by blast
  from w have "count_list (tokens body) w \<noteq> 0" by (simp add: count_list_0_iff)
  with len have o1: "offsets (Loc ?d offs) \<noteq> []" by auto
  from w have "count_list (tokens body) w \<le> Max (count_list (tokens body) ` set (tokens body))"
    by simp
  with len have o2: "length (offsets (Loc ?d offs)) \<le> max_tf (document (Loc ?d offs))"
    by (simp add: new_doc_def)
  have "document (Loc ?d offs) = last (documents (snd (add_doc self fname body)))"
    by (simp add: add_doc_tokens [OF ne])
  moreover have "doc_id (document (Loc ?d offs)) = length (documents self)"
    by (simp add: new_doc_def Document_def)
  moreover have "max_tf (document (Loc ?d offs)) = Max (count_list (tokens body) ` set (tokens body))"
    by (simp add: new_doc_def)
  moreover have "tf (Loc ?d offs) =
      100 * real (count_list (tokens body) w) / real (max_tf (document (Loc ?d offs)))"
    by (simp add: tf_def len)
  ultimately show "\<exists>l. postings (snd (add_doc self fname body)) w = postings self w @ [l]
           \<and> document l = last (documents (snd (add_doc self fname body)))
           \<and> doc_id (document l) = length (documents self)
           \<and> length (offsets l) = count_list (tokens body) w
           \<and> max_tf (document l) = Max (count_list (tokens body) ` set (tokens body))
           \<and> tf l = 100 * real (count_list (tokens body) w) / real (max_tf (document l))
           \<and> 0 < tf l \<and> tf l \<le> 100
           \<and> (tf l = 100 \<longleftrightarrow> count_list (tokens body) w = max_tf (document l))"
    using p len tf_bounds [OF o1 o2] by (intro exI [of _ "Loc ?d offs"]) simp
next
  fix t
  assume r: "reachable self"
  show "\<forall>l\<in>set (postings self t).
          0 < tf l \<and> tf l \<le> 100 \<and> (tf l = 100 \<longleftrightarrow> length (offsets l) = max_tf (document l))"
  proof
    fix l assume "l \<in> set (postings self t)"
    with r have "loc_ok (length (documents self)) l"
      by (simp add: postings_ok reachable_inv)
    then show "0 < tf l \<and> tf l \<le> 100 \<and> (tf l = 100 \<longleftrightarrow> length (offsets l) = max_tf (document l))"
      by (simp add: loc_ok_def tf_bounds)
  qed
next
  fix l
  show "tf_of exact l = tf l" by (rule tf_of_exact)
qed

theorem tf_range_witness:
  "''cat'' \<in> set (tokens ''the cat sat on the mat'') \<and> reachable scenario
   \<and> Loc doc0 [0] \<in> set (postings scenario ''cat'')
   \<and> (\<exists>l. postings (snd (add_doc new_index ''doc0.txt'' ''the cat sat on the mat'')) ''cat''
             = postings new_index ''cat'' @ [l]
          \<and> length (offsets l) = count_list (tokens ''the cat sat on the mat'') ''cat''
          \<and> 0 < tf l \<and> tf l \<le> 100)
   \<and> 0 < tf (Loc doc0 [0]) \<and> tf (Loc doc0 [0]) \<le> 100 \<and> tf (Loc doc0 [0]) = 100"
proof -
  have "tokens ''the cat sat on the mat'' = [''cat'', ''sat'', ''mat'']" by code_simp
  then have w: "''cat'' \<in> set (tokens ''the cat sat on the mat'')" by simp
  have p: "Loc doc0 [0] \<in> set (postings scenario ''cat'')"
    by (simp add: postings_def lookup_def dict_get_def scenario_eq)
  from tf_range [where w = "''cat''" and body = "''the cat sat on the mat''" and self = new_index
      and fname = "''doc0.txt''"] w
  have a: "\<exists>l. postings (snd (add_doc new_index ''doc0.txt'' ''the cat sat on the mat'')) ''cat''
             = postings new_index ''cat'' @ [l]
          \<and> length (offsets l) = count_list (tokens ''the cat sat on the mat'') ''cat''
          \<and> 0 < tf l \<and> tf l \<le> 100"
    by blast
  from tf_range [where w = "''cat''" and body = "''the cat sat on the mat''" and self = scenario
      and fname = "''doc0.txt''"]
    reachable_scenario p
  have b: "0 < tf (Loc doc0 [0]) \<and> tf (Loc doc0 [0]) \<le> 100" by blast
  have "tf (Loc doc0 [0]) = 100" by (simp add: tf_def doc0_def)
  with w p a b reachable_scenario show ?thesis by blast
qed

section \<open>Search\<close>

text \<open>
  C9. A search leaves the index as it finds it, whether it returns or raises; so do
  \<open>lookup\<close> and \<open>idf\<close>.
\<close>

theorem search_frame:
  "snd (lookup self w) = self \<and> snd (idf fl self w) = self \<and> snd (search fl self q limit) = self"
proof -
  have "snd (search fl self q limit) = self"
    using search_words_index [of fl "tokens q" "[]" self]
    by (auto simp: search_def Let_def split: prod.splits sum.splits)
  then show ?thesis by (simp add: lookup_def idf_def Let_def)
qed

theorem search_frame_witness:
  "snd (search exact scenario ''dog cat'' 10) = scenario
   \<and> documents (snd (search exact scenario ''dog cat'' 10)) = [doc0, doc1]
   \<and> map fst (terms (snd (search exact scenario ''dog cat'' 10))) =
       [''cat'', ''sat'', ''mat'', ''dog'', ''log'']"
  using search_frame [where self = scenario and w = "''dog''" and fl = exact and q = "''dog cat''" and limit = 10] by (simp add: scenario_eq)

text \<open>
  C2, as the code has it. For a reachable index a search does not raise, whatever the
  arithmetic of the floats. Before the cut to \<open>limit\<close>, its result holds one entry for
  every document that has a posting for a token of the query, whatever its score, with
  the float the scoring loop computed as its score; the entries are in descending order
  of that score, and entries whose computed scores are equal are in the order in which
  the scoring loop first reached their documents.
\<close>

theorem search_ranked:
  assumes "reachable self"
  shows "\<exists>full. (\<forall>limit. fst (search fl self q limit) = Inr (slice_to limit full))
           \<and> distinct (map r_document full)
           \<and> set (map r_document full) = set (touched self (tokens q))
           \<and> (\<forall>r\<in>set full. score r = doc_score fl self (tokens q) (r_document r))
           \<and> sorted_wrt (\<lambda>a b. score b \<le> score a) full
           \<and> (\<forall>s. map r_document (filter (\<lambda>r. score r = s) full) =
                     filter (\<lambda>d. doc_score fl self (tokens q) d = s)
                       (first_seen (touched self (tokens q))))"
proof (intro exI [of _ "ranking fl self q"] conjI allI ballI)
  fix limit
  show "fst (search fl self q limit) = Inr (slice_to limit (ranking fl self q))"
    by (simp add: search_ranking [OF reachable_inv [OF assms]])
next
  show "distinct (map r_document (ranking fl self q))"
    and "set (map r_document (ranking fl self q)) = set (touched self (tokens q))"
    using ranking_documents [of fl self q] by simp_all
next
  fix r assume "r \<in> set (ranking fl self q)"
  then show "score r = doc_score fl self (tokens q) (r_document r)" by (rule ranking_scores)
next
  show "sorted_wrt (\<lambda>a b. score b \<le> score a) (ranking fl self q)" by (rule ranking_sorted)
next
  fix s
  show "map r_document (filter (\<lambda>r. score r = s) (ranking fl self q)) =
          filter (\<lambda>d. doc_score fl self (tokens q) d = s) (first_seen (touched self (tokens q)))"
    by (rule ranking_stable)
qed

theorem search_ranked_witness:
  "reachable scenario
   \<and> (\<exists>full. (\<forall>limit. fst (search exact scenario ''dog cat'' limit) = Inr (slice_to limit full))
           \<and> distinct (map r_document full)
           \<and> set (map r_document full) = set (touched scenario (tokens ''dog cat''))
           \<and> (\<forall>r\<in>set full. score r = doc_score exact scenario (tokens ''dog cat'') (r_document r))
           \<and> sorted_wrt (\<lambda>a b. score b \<le> score a) full
           \<and> (\<forall>s. map r_document (filter (\<lambda>r. score r = s) full) =
                     filter (\<lambda>d. doc_score exact scenario (tokens ''dog cat'') d = s)
                       (first_seen (touched scenario (tokens ''dog cat'')))))
   \<and> fst (search exact scenario ''dog cat'' 10) =
       Inr [Result doc1 (100 * ln 2), Result doc0 (100 * ln 2)]"
  using search_ranked [OF reachable_scenario, where fl = exact and q = "''dog cat''"] reachable_scenario
  by (simp add: search_dog_cat slice_to_def)

theorem search_ranked_counterexample:
  "fst (search exact scenario ''dog cat'' 10) =
     Inr [Result doc1 (100 * ln 2), Result doc0 (100 * ln 2)]
   \<and> doc_id doc1 = 1 \<and> doc_id doc0 = 0
   \<and> fst (search exact scenario ''sat'' 10) = Inr [Result doc0 0, Result doc1 0]"
  by (simp add: search_dog_cat search_sat slice_to_def doc0_def doc1_def)

text \<open>
  C4, as the code has it. For a reachable index a search never raises, whatever the
  limit. Let \<open>full\<close> be the ranking of all matches: one entry for every document that has
  a posting for a token of the query, and no other entry, with the computed scores, in
  descending order of score, ties in the order in which their documents were first
  reached. A limit \<open>k \<ge> 0\<close> gives the first \<open>k\<close> entries of \<open>full\<close>, so at most \<open>k\<close>, and
  all of \<open>full\<close> without padding when \<open>k\<close> is at least the number of matches; limit 0
  gives the empty list; a negative limit \<open>k\<close> gives \<open>full\<close> without its last \<open>-k\<close> entries.
\<close>

theorem search_limit:
  assumes "reachable self"
  shows "\<exists>full. distinct (map r_document full)
           \<and> set (map r_document full) = set (touched self (tokens q))
           \<and> length full = card (set (touched self (tokens q)))
           \<and> (\<forall>r\<in>set full. score r = doc_score fl self (tokens q) (r_document r))
           \<and> sorted_wrt (\<lambda>a b. score b \<le> score a) full
           \<and> (\<forall>s. map r_document (filter (\<lambda>r. score r = s) full) =
                     filter (\<lambda>d. doc_score fl self (tokens q) d = s)
                       (first_seen (touched self (tokens q))))
           \<and> fst (search fl self q 0) = Inr []
           \<and> (\<forall>k. 0 \<le> k \<longrightarrow>
                 (\<exists>rs. fst (search fl self q k) = Inr rs \<and> rs = take (nat k) full
                        \<and> length rs \<le> nat k \<and> (int (length full) \<le> k \<longrightarrow> rs = full)))
           \<and> (\<forall>k. k < 0 \<longrightarrow>
                 fst (search fl self q k) = Inr (take (length full - nat (- k)) full))"
proof (rule exI [of _ "ranking fl self q"], intro conjI allI impI ballI)
  show d: "distinct (map r_document (ranking fl self q))"
    and s: "set (map r_document (ranking fl self q)) = set (touched self (tokens q))"
    using ranking_documents [of fl self q] by simp_all
  from distinct_card [OF d] s
  show "length (ranking fl self q) = card (set (touched self (tokens q)))" by simp
next
  fix r assume "r \<in> set (ranking fl self q)"
  then show "score r = doc_score fl self (tokens q) (r_document r)" by (rule ranking_scores)
next
  show "sorted_wrt (\<lambda>a b. score b \<le> score a) (ranking fl self q)" by (rule ranking_sorted)
next
  fix s
  show "map r_document (filter (\<lambda>r. score r = s) (ranking fl self q)) =
          filter (\<lambda>d. doc_score fl self (tokens q) d = s) (first_seen (touched self (tokens q)))"
    by (rule ranking_stable)
next
  show "fst (search fl self q 0) = Inr []"
    by (simp add: search_ranking [OF reachable_inv [OF assms]] slice_to_def)
next
  fix k :: int assume "0 \<le> k"
  then show "\<exists>rs. fst (search fl self q k) = Inr rs \<and> rs = take (nat k) (ranking fl self q)
                  \<and> length rs \<le> nat k
                  \<and> (int (length (ranking fl self q)) \<le> k \<longrightarrow> rs = ranking fl self q)"
    by (simp add: search_ranking [OF reachable_inv [OF assms]] slice_to_def)
next
  fix k :: int assume "k < 0"
  then show "fst (search fl self q k) =
               Inr (take (length (ranking fl self q) - nat (- k)) (ranking fl self q))"
    by (simp add: search_ranking [OF reachable_inv [OF assms]] slice_to_def)
qed

theorem search_limit_witness:
  "reachable scenario
   \<and> fst (search exact scenario ''dog cat'' 0) = Inr []
   \<and> fst (search exact scenario ''dog cat'' 1) = Inr [Result doc1 (100 * ln 2)]
   \<and> fst (search exact scenario ''dog cat'' 2) =
       Inr [Result doc1 (100 * ln 2), Result doc0 (100 * ln 2)]
   \<and> fst (search exact scenario ''dog cat'' 5) =
       Inr [Result doc1 (100 * ln 2), Result doc0 (100 * ln 2)]
   \<and> (\<exists>full. distinct (map r_document full)
           \<and> set (map r_document full) = set (touched scenario (tokens ''dog cat''))
           \<and> length full = card (set (touched scenario (tokens ''dog cat'')))
           \<and> fst (search exact scenario ''dog cat'' 0) = Inr []
           \<and> (\<forall>k. 0 \<le> k \<longrightarrow>
                 (\<exists>rs. fst (search exact scenario ''dog cat'' k) = Inr rs \<and> rs = take (nat k) full
                        \<and> length rs \<le> nat k \<and> (int (length full) \<le> k \<longrightarrow> rs = full)))
           \<and> (\<forall>k. k < 0 \<longrightarrow>
                 fst (search exact scenario ''dog cat'' k) =
                   Inr (take (length full - nat (- k)) full)))"
proof -
  from search_limit [OF reachable_scenario, where fl = exact and q = "''dog cat''"]
  have "\<exists>full. distinct (map r_document full)
           \<and> set (map r_document full) = set (touched scenario (tokens ''dog cat''))
           \<and> length full = card (set (touched scenario (tokens ''dog cat'')))
           \<and> fst (search exact scenario ''dog cat'' 0) = Inr []
           \<and> (\<forall>k. 0 \<le> k \<longrightarrow>
                 (\<exists>rs. fst (search exact scenario ''dog cat'' k) = Inr rs \<and> rs = take (nat k) full
                        \<and> length rs \<le> nat k \<and> (int (length full) \<le> k \<longrightarrow> rs = full)))
           \<and> (\<forall>k. k < 0 \<longrightarrow>
                 fst (search exact scenario ''dog cat'' k) =
                   Inr (take (length full - nat (- k)) full))"
    by blast
  moreover have "fst (search exact scenario ''dog cat'' 0) = Inr []"
    and "fst (search exact scenario ''dog cat'' 1) = Inr [Result doc1 (100 * ln 2)]"
    and "fst (search exact scenario ''dog cat'' 2) =
           Inr [Result doc1 (100 * ln 2), Result doc0 (100 * ln 2)]"
    and "fst (search exact scenario ''dog cat'' 5) =
           Inr [Result doc1 (100 * ln 2), Result doc0 (100 * ln 2)]"
    by (simp_all add: search_dog_cat slice_to_def)
  ultimately show ?thesis using reachable_scenario by (intro conjI)
qed

theorem search_limit_counterexample:
  "fst (search exact scenario ''dog cat'' (- 1)) = Inr [Result doc1 (100 * ln 2)]"
  by (simp add: search_dog_cat slice_to_def)

text \<open>
  C10. For a reachable index, every document with a posting for a token of the query is
  in the uncut result of a search. Without rounding, the score of every document in the
  result is the sum, over the distinct tokens \<open>t\<close> of the query, of the number of times
  the query yields \<open>t\<close> times the contribution \<open>tf \<times> idf\<close> of \<open>t\<close> to that document. Whatever
  the arithmetic of the floats, the score is what adding the contributions to \<open>0.0\<close>
  gives, one contribution for each occurrence of each token in the query.
\<close>

theorem search_duplicates:
  assumes "reachable self"
  shows "(\<exists>full. (\<forall>limit. fst (search exact self q limit) = Inr (slice_to limit full))
           \<and> r_document ` set full = set (touched self (tokens q))
           \<and> (\<forall>r\<in>set full.
                 score r = (\<Sum>t\<in>set (tokens q).
                              real (count_list (tokens q) t) * term_score self t (r_document r))))
         \<and> (\<exists>full. (\<forall>limit. fst (search fl self q limit) = Inr (slice_to limit full))
           \<and> r_document ` set full = set (touched self (tokens q))
           \<and> (\<forall>r\<in>set full.
                 score r = fold (\<lambda>v a. f_add fl a v)
                             (concat (map (\<lambda>t. map (\<lambda>l. f_mul fl (tf_of fl l) (idf_value fl self t))
                                                 (filter (\<lambda>l. document l = r_document r)
                                                    (postings self t)))
                                        (tokens q)))
                             (f_zero fl)))"
proof (rule conjI)
  show "\<exists>full. (\<forall>limit. fst (search exact self q limit) = Inr (slice_to limit full))
           \<and> r_document ` set full = set (touched self (tokens q))
           \<and> (\<forall>r\<in>set full.
                 score r = (\<Sum>t\<in>set (tokens q).
                              real (count_list (tokens q) t) * term_score self t (r_document r)))"
  proof (intro exI [of _ "ranking exact self q"] conjI allI ballI)
    fix limit
    show "fst (search exact self q limit) = Inr (slice_to limit (ranking exact self q))"
      by (simp add: search_ranking [OF reachable_inv [OF assms]])
  next
    show "r_document ` set (ranking exact self q) = set (touched self (tokens q))"
      using ranking_documents [of exact self q] by simp
  next
    fix r assume "r \<in> set (ranking exact self q)"
    then have "score r = doc_score exact self (tokens q) (r_document r)" by (rule ranking_scores)
    then show "score r = (\<Sum>t\<in>set (tokens q).
                  real (count_list (tokens q) t) * term_score self t (r_document r))"
      by (simp add: doc_score_exact count_sum)
  qed
next
  show "\<exists>full. (\<forall>limit. fst (search fl self q limit) = Inr (slice_to limit full))
           \<and> r_document ` set full = set (touched self (tokens q))
           \<and> (\<forall>r\<in>set full.
                 score r = fold (\<lambda>v a. f_add fl a v)
                             (concat (map (\<lambda>t. map (\<lambda>l. f_mul fl (tf_of fl l) (idf_value fl self t))
                                                 (filter (\<lambda>l. document l = r_document r)
                                                    (postings self t)))
                                        (tokens q)))
                             (f_zero fl))"
  proof (intro exI [of _ "ranking fl self q"] conjI allI ballI)
    fix limit
    show "fst (search fl self q limit) = Inr (slice_to limit (ranking fl self q))"
      by (simp add: search_ranking [OF reachable_inv [OF assms]])
  next
    show "r_document ` set (ranking fl self q) = set (touched self (tokens q))"
      using ranking_documents [of fl self q] by simp
  next
    fix r assume "r \<in> set (ranking fl self q)"
    then have "score r = doc_score fl self (tokens q) (r_document r)" by (rule ranking_scores)
    then show "score r = fold (\<lambda>v a. f_add fl a v)
                             (concat (map (\<lambda>t. map (\<lambda>l. f_mul fl (tf_of fl l) (idf_value fl self t))
                                                 (filter (\<lambda>l. document l = r_document r)
                                                    (postings self t)))
                                        (tokens q)))
                             (f_zero fl)"
      by (simp add: doc_score_def added_to_def)
  qed
qed

theorem search_duplicates_witness:
  "reachable scenario
   \<and> fst (search exact scenario ''cat cat'' 10) = Inr [Result doc0 (200 * ln 2)]
   \<and> count_list (tokens ''cat cat'') ''cat'' = 2
   \<and> term_score scenario ''cat'' doc0 = 100 * ln 2
   \<and> (\<exists>full. (\<forall>limit. fst (search exact scenario ''cat cat'' limit) = Inr (slice_to limit full))
           \<and> r_document ` set full = set (touched scenario (tokens ''cat cat''))
           \<and> (\<forall>r\<in>set full.
                 score r = (\<Sum>t\<in>set (tokens ''cat cat'').
                              real (count_list (tokens ''cat cat'') t) * term_score scenario t (r_document r))))"
proof -
  from search_duplicates [OF reachable_scenario, where fl = exact and q = "''cat cat''"]
  have "\<exists>full. (\<forall>limit. fst (search exact scenario ''cat cat'' limit) = Inr (slice_to limit full))
           \<and> r_document ` set full = set (touched scenario (tokens ''cat cat''))
           \<and> (\<forall>r\<in>set full.
                 score r = (\<Sum>t\<in>set (tokens ''cat cat'').
                              real (count_list (tokens ''cat cat'') t) * term_score scenario t (r_document r)))"
    by (rule conjunct1)
  moreover have "fst (search exact scenario ''cat cat'' 10) = Inr [Result doc0 (200 * ln 2)]"
    by (simp add: search_cat_cat slice_to_def)
  moreover have "count_list (tokens ''cat cat'') ''cat'' = 2" by (simp add: tokens_cat_cat)
  ultimately show ?thesis using reachable_scenario term_score_cat by (intro conjI)
qed

section \<open>Documents without tokens\<close>

text \<open>
  C3, as the code has it. Ingesting a text without tokens raises \<open>ValueError\<close>, from
  \<open>max\<close> over an empty sequence. The call is not all-or-nothing: the map of terms is as
  before, but the document is already in the list of documents, with \<open>max_tf = 0\<close>. The
  document has no posting, so in a reachable index no later search raises, and no result
  of a search holds that document.
\<close>

theorem add_doc_empty:
  assumes "tokens body = []"
  shows "fst (add_doc self fname body) = Some ValueError
         \<and> terms (snd (add_doc self fname body)) = terms self
         \<and> documents (snd (add_doc self fname body)) =
             documents self @ [Document (length (documents self)) fname]
         \<and> max_tf (Document (length (documents self)) fname) = 0
         \<and> (reachable self \<longrightarrow>
              (\<forall>q limit. \<exists>rs. fst (search fl (snd (add_doc self fname body)) q limit) = Inr rs
                 \<and> Document (length (documents self)) fname \<notin> r_document ` set rs))"
proof -
  let ?self = "snd (add_doc self fname body)"
  let ?d = "Document (length (documents self)) fname"
  have eq: "add_doc self fname body = (Some ValueError, self\<lparr>documents := documents self @ [?d]\<rparr>)"
    by (rule add_doc_no_tokens [OF assms])
  have "\<exists>rs. fst (search fl ?self q limit) = Inr rs \<and> ?d \<notin> r_document ` set rs"
    if r: "reachable self" for q limit
  proof -
    from r have "reachable ?self" by (rule reachable_add_doc)
    then have s: "search fl ?self q limit = (Inr (slice_to limit (ranking fl ?self q)), ?self)"
      by (rule search_ranking [OF reachable_inv])
    have "?d \<notin> r_document ` set (slice_to limit (ranking fl ?self q))"
    proof
      assume "?d \<in> r_document ` set (slice_to limit (ranking fl ?self q))"
      with set_slice_to [of limit "ranking fl ?self q"]
      have "?d \<in> set (map r_document (ranking fl ?self q))" by auto
      then have "?d \<in> set (touched ?self (tokens q))"
        using ranking_documents [of fl ?self q] by simp
      from touched_postings [OF this] obtain w l
        where l: "l \<in> set (postings ?self w)" and d: "?d = document l" by blast
      from l have "l \<in> set (postings self w)" by (simp add: eq postings_def lookup_def)
      from postings_ok [OF reachable_inv [OF r] this] have "doc_id (document l) < length (documents self)"
        by (simp add: loc_ok_def)
      moreover from d [symmetric] have "doc_id (document l) = length (documents self)"
        by (simp add: Document_def)
      ultimately show False by simp
    qed
    with s show ?thesis by simp
  qed
  then show ?thesis by (simp add: eq Document_def)
qed

theorem add_doc_empty_witness:
  "tokens ''the of'' = [] \<and> reachable scenario
   \<and> fst (add_doc scenario ''e.txt'' ''the of'') = Some ValueError
   \<and> terms (snd (add_doc scenario ''e.txt'' ''the of'')) = terms scenario
   \<and> documents (snd (add_doc scenario ''e.txt'' ''the of'')) =
       documents scenario @ [Document (length (documents scenario)) ''e.txt'']
   \<and> Document (length (documents scenario)) ''e.txt'' =
       \<lparr>doc_id = 2, name = ''e'', filename = ''e.txt'', max_tf = 0\<rparr>
   \<and> (\<exists>rs. fst (search exact (snd (add_doc scenario ''e.txt'' ''the of'')) ''cat'' 10) = Inr rs
          \<and> Document (length (documents scenario)) ''e.txt'' \<notin> r_document ` set rs)"
proof -
  have t: "tokens ''the of'' = []" by code_simp
  have d: "Document (length (documents scenario)) ''e.txt'' =
             \<lparr>doc_id = 2, name = ''e'', filename = ''e.txt'', max_tf = 0\<rparr>"
    unfolding scenario_def by code_simp
  from add_doc_empty [OF t, where self = scenario and fname = "''e.txt''" and fl = exact] reachable_scenario t d
  show ?thesis by blast
qed

theorem add_doc_empty_counterexample:
  "add_doc new_index ''e.txt'' ''the of'' =
     (Some ValueError,
      \<lparr>documents = [\<lparr>doc_id = 0, name = ''e'', filename = ''e.txt'', max_tf = 0\<rparr>], terms = []\<rparr>)
   \<and> snd (add_doc new_index ''e.txt'' ''the of'') \<noteq> new_index"
proof -
  have "add_doc new_index ''e.txt'' ''the of'' =
     (Some ValueError,
      \<lparr>documents = [\<lparr>doc_id = 0, name = ''e'', filename = ''e.txt'', max_tf = 0\<rparr>], terms = []\<rparr>)"
    by code_simp
  then show ?thesis by (simp add: new_index_def)
qed

section \<open>Display names\<close>

text \<open>
  C8, as the code has it. The display name is the file name with every occurrence of
  \<open>.txt\<close> removed, from the left: a file name without \<open>.txt\<close> is its own display name; a
  file name whose only \<open>.txt\<close> is at its end loses it (in both cases the name is the one
  the specification words); and the first \<open>.txt\<close> is removed wherever it stands, the rest
  of the file name being treated the same way.
\<close>

theorem document_name:
  assumes "\<not> sublist ''.txt'' a"
  shows "name (Document i a) = a \<and> name (Document i a) = strip_txt_suffix a
         \<and> name (Document i (a @ ''.txt'')) = a
         \<and> name (Document i (a @ ''.txt'')) = strip_txt_suffix (a @ ''.txt'')
         \<and> name (Document i (a @ ''.txt'' @ b)) = a @ name (Document i b)"
proof -
  have n: "name (Document i s) = str_replace ''.txt'' '''' s" for s
    by (simp add: Document_def)
  have 1: "str_replace ''.txt'' '''' a = a"
    by (rule str_replace_absent [OF _ assms]) simp
  have 2: "str_replace ''.txt'' '''' (a @ ''.txt'' @ b) = a @ str_replace ''.txt'' '''' b" for b
    by (rule str_replace_txt [OF assms])
  from 2 [of "[]"] have 3: "str_replace ''.txt'' '''' (a @ ''.txt'') = a" by simp
  from assms have "\<not> suffix ''.txt'' a" by (auto dest: suffix_imp_sublist)
  then have 4: "strip_txt_suffix a = a" by (simp add: strip_txt_suffix_def)
  have "suffix ''.txt'' (a @ ''.txt'')" by (rule suffixI) simp
  then have 5: "strip_txt_suffix (a @ ''.txt'') = a" by (simp add: strip_txt_suffix_def)
  show ?thesis unfolding n using 1 2 3 4 5 by simp
qed

theorem document_name_witness:
  "\<not> sublist ''.txt'' ''a'' \<and> name (Document 0 ''a'') = ''a'' \<and> name (Document 0 ''a.txt'') = ''a''
   \<and> name (Document 0 ''a.txt.bak'') = ''a.bak''"
proof -
  have s: "\<not> sublist ''.txt'' ''a''" by (simp add: sublist_Cons_right)
  have "name (Document 0 ''.bak'') = ''.bak''" by code_simp
  with document_name [OF s, of 0 "''.bak''"] s show ?thesis by simp
qed

theorem document_name_counterexample:
  "name (Document 0 ''a.txt.bak'') = ''a.bak'' \<and> strip_txt_suffix ''a.txt.bak'' = ''a.txt.bak''
   \<and> name (Document 0 ''a.txt.bak'') \<noteq> strip_txt_suffix ''a.txt.bak''"
proof -
  have "name (Document 0 ''a.txt.bak'') = ''a.bak''" by code_simp
  moreover have "strip_txt_suffix ''a.txt.bak'' = ''a.txt.bak''" by code_simp
  ultimately show ?thesis by simp
qed

section \<open>Saving\<close>

text \<open>
  C1. In a reachable index every term has a posting, and \<open>save\<close> raises
  \<open>AttributeError\<close> at the first posting of the first term: \<open>index.dat\<close> is left empty,
  \<open>directory.txt\<close> is not written, and no posting is ever encoded.
\<close>

theorem save_raises:
  assumes "reachable self" and "terms self \<noteq> []"
  shows "fst (save self fs) = Some AttributeError
         \<and> index_dat (snd (save self fs)) = Some []
         \<and> directory_txt (snd (save self fs)) = directory_txt fs"
proof -
  from assms(2) obtain w locs rest where t: "terms self = (w, locs) # rest"
    by (cases "terms self") auto
  with reachable_terms_inv [OF assms(1)] have "locs \<noteq> []" by (simp add: terms_inv_def)
  then have "write_terms (terms self) 0 [] [] = (Some AttributeError, [], [])"
    by (simp add: t)
  then show ?thesis by (simp add: save_def Let_def)
qed

theorem save_raises_witness:
  "reachable scenario \<and> terms scenario \<noteq> []
   \<and> fst (save scenario no_files) = Some AttributeError
   \<and> index_dat (snd (save scenario no_files)) = Some []
   \<and> directory_txt (snd (save scenario no_files)) = None"
proof -
  have t: "terms scenario \<noteq> []" by (simp add: scenario_eq)
  from save_raises [OF reachable_scenario t, of no_files] reachable_scenario t
  show ?thesis by (simp add: no_files_def)
qed

text \<open>
  C7. For the two documents of the scenario, \<open>save\<close> writes the two records of
  \<open>documents.txt\<close> one after the other with no line break between them, and raises before
  it writes \<open>directory.txt\<close>.
\<close>

theorem save_documents_txt:
  "documents_txt (snd (save scenario no_files)) = Some ''doc0,doc0.txt,1doc1,doc1.txt,1''
   \<and> CHR 0x0A \<notin> set ''doc0,doc0.txt,1doc1,doc1.txt,1''
   \<and> length (documents scenario) = 2
   \<and> fst (save scenario no_files) = Some AttributeError
   \<and> directory_txt (snd (save scenario no_files)) = None"
proof -
  have "length (documents scenario) = 2" by (simp add: scenario_eq)
  then show ?thesis by (simp add: save_scenario)
qed

end
